theory Spec2Isabelle
  imports Main "HOL-Library.Word"
begin

section \<open>Memory model\<close>

text \<open>
  The shopping cart of \<^verbatim>\<open>cores/shopping-debug/item.c\<close> is an intrusive doubly linked
  list built with the macros of \<^verbatim>\<open>cores/shopping-release/list.h\<close>. The code works on
  raw pointers, so the model has an explicit store. A pointer to a structure is an
  \<open>addr option\<close>, with \<open>None\<close> for \<^verbatim>\<open>NULL\<close>. A \<^verbatim>\<open>struct item **\<close> (the type of
  \<^verbatim>\<open>le_prev\<close>) addresses a pointer field: either the \<^verbatim>\<open>lh_first\<close> field of a list
  head or the \<^verbatim>\<open>le_next\<close> field of an item.
\<close>

type_synonym addr = nat

datatype link = Lh_first addr | Le_next addr

text \<open>
  \<^verbatim>\<open>struct item { long id; int count; LIST_ENTRY(item) next; }\<close>: \<^verbatim>\<open>long\<close> is taken
  as 64 bits and \<^verbatim>\<open>int\<close> as 32 bits (LP64). The field \<^verbatim>\<open>id\<close> is named \<open>item_id\<close>
  because \<open>id\<close> is the identity function of HOL.
\<close>

record item =
  item_id :: "64 word"
  count :: "32 word"
  le_next :: "addr option"
  le_prev :: "link option"

text \<open>What \<^verbatim>\<open>printf\<close> writes: the only message of the program carries the id.\<close>

datatype msg = Failed_to_find "64 word"

text \<open>
  The program state: the static pointer \<^verbatim>\<open>shopping_cart\<close>, the live list heads (a head
  has the single field \<^verbatim>\<open>lh_first\<close>, so the heap of heads maps the address of a head to
  the value of that field), the live items, and the standard output.
\<close>

record state =
  shopping_cart :: "addr option"
  lh_first :: "addr \<rightharpoonup> addr option"
  items :: "addr \<rightharpoonup> item"
  out :: "msg list"

text \<open>
  A static object without initialiser is zero-initialised, and no statement of
  \<^verbatim>\<open>item.c\<close> assigns \<^verbatim>\<open>shopping_cart\<close>: the program starts with a null pointer
  and nothing allocated.
\<close>

definition initial_state :: state where
  "initial_state = \<lparr>shopping_cart = None, lh_first = Map.empty, items = Map.empty, out = []\<rparr>"

text \<open>
  Undefined behaviour of the memory accesses is a value of the model: dereferencing
  \<^verbatim>\<open>NULL\<close>, and dereferencing or freeing an address that holds no live object. A fault
  records what the pointer was dereferenced as: a list head (\<^verbatim>\<open>struct shopping_head *\<close>,
  as in \<^verbatim>\<open>(head)->lh_first\<close>) or an item (\<^verbatim>\<open>struct item *\<close>, as in
  \<^verbatim>\<open>(elm)->field.le_next\<close>).
\<close>

datatype pointee = Head | Item

datatype fault = NullDeref pointee | InvalidDeref pointee | InvalidFree

definition andThen :: "fault + 'a \<Rightarrow> ('a \<Rightarrow> fault + 'b) \<Rightarrow> fault + 'b" where
  "andThen m f = (case m of Inl e \<Rightarrow> Inl e | Inr x \<Rightarrow> f x)"

text \<open>\<^verbatim>\<open>(head)->lh_first\<close>, read and written.\<close>

definition get_lh_first :: "addr option \<Rightarrow> state \<Rightarrow> fault + addr option" where
  "get_lh_first head s =
     (case head of None \<Rightarrow> Inl (NullDeref Head)
      | Some h \<Rightarrow> (case lh_first s h of None \<Rightarrow> Inl (InvalidDeref Head) | Some p \<Rightarrow> Inr p))"

definition set_lh_first :: "addr option \<Rightarrow> addr option \<Rightarrow> state \<Rightarrow> fault + state" where
  "set_lh_first head p s =
     (case head of None \<Rightarrow> Inl (NullDeref Head)
      | Some h \<Rightarrow> (case lh_first s h of None \<Rightarrow> Inl (InvalidDeref Head)
                   | Some _ \<Rightarrow> Inr (s\<lparr>lh_first := (lh_first s)(h \<mapsto> p)\<rparr>)))"

text \<open>\<^verbatim>\<open>*(elm)\<close>, read, and one of its fields written.\<close>

definition get_item :: "addr option \<Rightarrow> state \<Rightarrow> fault + item" where
  "get_item elm s =
     (case elm of None \<Rightarrow> Inl (NullDeref Item)
      | Some a \<Rightarrow> (case items s a of None \<Rightarrow> Inl (InvalidDeref Item) | Some it \<Rightarrow> Inr it))"

definition set_item :: "addr option \<Rightarrow> (item \<Rightarrow> item) \<Rightarrow> state \<Rightarrow> fault + state" where
  "set_item elm f s =
     (case elm of None \<Rightarrow> Inl (NullDeref Item)
      | Some a \<Rightarrow> (case items s a of None \<Rightarrow> Inl (InvalidDeref Item)
                   | Some it \<Rightarrow> Inr (s\<lparr>items := (items s)(a \<mapsto> f it)\<rparr>)))"

text \<open>\<^verbatim>\<open>&(elm)->field.le_next\<close> and \<^verbatim>\<open>&(head)->lh_first\<close>.\<close>

definition addr_le_next :: "addr option \<Rightarrow> fault + link" where
  "addr_le_next elm = (case elm of None \<Rightarrow> Inl (NullDeref Item) | Some a \<Rightarrow> Inr (Le_next a))"

definition addr_lh_first :: "addr option \<Rightarrow> fault + link" where
  "addr_lh_first head = (case head of None \<Rightarrow> Inl (NullDeref Head) | Some h \<Rightarrow> Inr (Lh_first h))"

text \<open>\<^verbatim>\<open>*p\<close> for a \<^verbatim>\<open>struct item **p\<close>, read and written.\<close>

fun load :: "link \<Rightarrow> state \<Rightarrow> fault + addr option" where
  "load (Lh_first h) s = get_lh_first (Some h) s"
| "load (Le_next a) s = andThen (get_item (Some a) s) (\<lambda>it. Inr (le_next it))"

fun store :: "link \<Rightarrow> addr option \<Rightarrow> state \<Rightarrow> fault + state" where
  "store (Lh_first h) p s = set_lh_first (Some h) p s"
| "store (Le_next a) p s = set_item (Some a) (\<lambda>it. it\<lparr>le_next := p\<rparr>) s"

text \<open>
  \<^verbatim>\<open>malloc\<close> and \<^verbatim>\<open>free\<close> belong to the C library. What \<^verbatim>\<open>malloc\<close> answers is a
  parameter \<open>m\<close> of the caller: \<open>None\<close> when it returns \<^verbatim>\<open>NULL\<close>, or the address of the
  new block together with the indeterminate contents the block starts with.
\<close>

definition malloc :: "(addr \<times> item) option \<Rightarrow> state \<Rightarrow> addr option \<times> state" where
  "malloc m s =
     (case m of None \<Rightarrow> (None, s)
      | Some (a, g) \<Rightarrow> (Some a, s\<lparr>items := (items s)(a \<mapsto> g)\<rparr>))"

definition free :: "addr option \<Rightarrow> state \<Rightarrow> fault + state" where
  "free p s =
     (case p of None \<Rightarrow> Inr s
      | Some a \<Rightarrow> (case items s a of None \<Rightarrow> Inl InvalidFree
                   | Some _ \<Rightarrow> Inr (s\<lparr>items := (items s)(a := None)\<rparr>)))"

definition printf_failed_to_find :: "64 word \<Rightarrow> state \<Rightarrow> state" where
  "printf_failed_to_find x s = s\<lparr>out := out s @ [Failed_to_find x]\<rparr>"

section \<open>The list macros of list.h\<close>

text \<open>
  \<^verbatim>\<open>LIST_INSERT_AFTER(listelm, elm, field)\<close>: the assignment inside the condition
  reads \<^verbatim>\<open>(listelm)->field.le_next\<close> and stores it in \<^verbatim>\<open>(elm)->field.le_next\<close>.
\<close>

definition LIST_INSERT_AFTER :: "addr option \<Rightarrow> addr option \<Rightarrow> state \<Rightarrow> fault + state" where
  "LIST_INSERT_AFTER listelm elm s =
     andThen (get_item listelm s) (\<lambda>l.
     andThen (set_item elm (\<lambda>it. it\<lparr>le_next := le_next l\<rparr>) s) (\<lambda>s1.
     andThen (if le_next l \<noteq> None
              then andThen (get_item listelm s1) (\<lambda>l1.
                   andThen (addr_le_next elm) (\<lambda>r.
                   set_item (le_next l1) (\<lambda>it. it\<lparr>le_prev := Some r\<rparr>) s1))
              else Inr s1) (\<lambda>s2.
     andThen (set_item listelm (\<lambda>it. it\<lparr>le_next := elm\<rparr>) s2) (\<lambda>s3.
     andThen (addr_le_next listelm) (\<lambda>r.
     set_item elm (\<lambda>it. it\<lparr>le_prev := Some r\<rparr>) s3)))))"

definition LIST_INSERT_HEAD :: "addr option \<Rightarrow> addr option \<Rightarrow> state \<Rightarrow> fault + state" where
  "LIST_INSERT_HEAD head elm s =
     andThen (get_lh_first head s) (\<lambda>first.
     andThen (set_item elm (\<lambda>it. it\<lparr>le_next := first\<rparr>) s) (\<lambda>s1.
     andThen (if first \<noteq> None
              then andThen (get_lh_first head s1) (\<lambda>first1.
                   andThen (addr_le_next elm) (\<lambda>r.
                   set_item first1 (\<lambda>it. it\<lparr>le_prev := Some r\<rparr>) s1))
              else Inr s1) (\<lambda>s2.
     andThen (set_lh_first head elm s2) (\<lambda>s3.
     andThen (addr_lh_first head) (\<lambda>r.
     set_item elm (\<lambda>it. it\<lparr>le_prev := Some r\<rparr>) s3)))))"

text \<open>
  The scan of \<^verbatim>\<open>LIST_INSERT_TAIL\<close>:
  \<^verbatim>\<open>while (LIST_NEXT(curelm, field)) curelm = LIST_NEXT(curelm, field);\<close>
  It runs forever on a cyclic list, which is the value \<open>None\<close>.
\<close>

partial_function (option) LIST_INSERT_TAIL_scan :: "addr option \<Rightarrow> state \<Rightarrow> (fault + addr option) option" where
  "LIST_INSERT_TAIL_scan curelm s =
     (case get_item curelm s of Inl e \<Rightarrow> Some (Inl e)
      | Inr c \<Rightarrow> (if le_next c \<noteq> None then LIST_INSERT_TAIL_scan (le_next c) s
                  else Some (Inr curelm)))"

declare LIST_INSERT_TAIL_scan.simps [code]

definition LIST_INSERT_TAIL :: "addr option \<Rightarrow> addr option \<Rightarrow> state \<Rightarrow> (fault + state) option" where
  "LIST_INSERT_TAIL head elm s =
     (case get_lh_first head s of Inl e \<Rightarrow> Some (Inl e)
      | Inr curelm \<Rightarrow>
          (if curelm = None then Some (LIST_INSERT_HEAD head elm s)
           else (case LIST_INSERT_TAIL_scan curelm s of None \<Rightarrow> None
                 | Some (Inl e) \<Rightarrow> Some (Inl e)
                 | Some (Inr last_elm) \<Rightarrow> Some (LIST_INSERT_AFTER last_elm elm s))))"

text \<open>
  \<^verbatim>\<open>LIST_REMOVE(elm, field)\<close>: two statements, each reading \<^verbatim>\<open>*(elm)\<close> again.
\<close>

definition LIST_REMOVE :: "addr option \<Rightarrow> state \<Rightarrow> fault + state" where
  "LIST_REMOVE elm s =
     andThen (get_item elm s) (\<lambda>e.
     andThen (if le_next e \<noteq> None
              then set_item (le_next e) (\<lambda>it. it\<lparr>le_prev := le_prev e\<rparr>) s
              else Inr s) (\<lambda>s1.
     andThen (get_item elm s1) (\<lambda>e1.
     (case le_prev e1 of None \<Rightarrow> Inr s1
      | Some r \<Rightarrow> store r (le_next e1) s1))))"

text \<open>
  \<^verbatim>\<open>LIST_FOREACH(var, head, field)\<close> with a body that only records \<open>var\<close>: the
  elements an iteration visits, in order.
\<close>

partial_function (option) LIST_FOREACH_from :: "addr option \<Rightarrow> state \<Rightarrow> addr list \<Rightarrow> (fault + addr list) option" where
  "LIST_FOREACH_from var s seen =
     (case var of None \<Rightarrow> Some (Inr seen)
      | Some a \<Rightarrow> (case get_item (Some a) s of Inl e \<Rightarrow> Some (Inl e)
                   | Inr it \<Rightarrow> LIST_FOREACH_from (le_next it) s (seen @ [a])))"

declare LIST_FOREACH_from.simps [code]

definition LIST_FOREACH :: "addr option \<Rightarrow> state \<Rightarrow> (fault + addr list) option" where
  "LIST_FOREACH head s =
     (case get_lh_first head s of Inl e \<Rightarrow> Some (Inl e)
      | Inr first \<Rightarrow> LIST_FOREACH_from first s [])"

section \<open>The cart of item.c\<close>

text \<open>
  The loop of \<^verbatim>\<open>add_to_cart\<close>. \<open>Inr (Some s')\<close> is the \<^verbatim>\<open>return\<close> inside the body,
  \<open>Inr None\<close> the end of the loop, reached with \<^verbatim>\<open>item == NULL\<close>. \<^verbatim>\<open>count += 1\<close> on
  an \<^verbatim>\<open>int\<close> is modelled as the 32-bit two's complement addition the compiled code
  performs (at \<^verbatim>\<open>INT_MAX\<close> the C standard leaves it undefined).
\<close>

partial_function (option) add_to_cart_loop :: "64 word \<Rightarrow> addr option \<Rightarrow> state \<Rightarrow> (fault + state option) option" where
  "add_to_cart_loop x var s =
     (case var of None \<Rightarrow> Some (Inr None)
      | Some a \<Rightarrow>
          (case get_item (Some a) s of Inl e \<Rightarrow> Some (Inl e)
           | Inr it \<Rightarrow>
               (if item_id it = x
                then (case set_item (Some a) (\<lambda>i. i\<lparr>count := count i + 1\<rparr>) s of
                        Inl e \<Rightarrow> Some (Inl e) | Inr s' \<Rightarrow> Some (Inr (Some s')))
                else add_to_cart_loop x (le_next it) s)))"

declare add_to_cart_loop.simps [code]

definition add_to_cart :: "(addr \<times> item) option \<Rightarrow> 64 word \<Rightarrow> state \<Rightarrow> (fault + state) option" where
  "add_to_cart m x s =
     (case get_lh_first (shopping_cart s) s of Inl e \<Rightarrow> Some (Inl e)
      | Inr first \<Rightarrow>
          (case add_to_cart_loop x first s of None \<Rightarrow> None
           | Some (Inl e) \<Rightarrow> Some (Inl e)
           | Some (Inr (Some s')) \<Rightarrow> Some (Inr s')
           | Some (Inr None) \<Rightarrow>
               (case malloc m s of (new_item, s1) \<Rightarrow>
                  (case andThen (set_item new_item (\<lambda>i. i\<lparr>item_id := x\<rparr>) s1)
                          (set_item new_item (\<lambda>i. i\<lparr>count := 1\<rparr>)) of
                     Inl e \<Rightarrow> Some (Inl e)
                   | Inr s2 \<Rightarrow> LIST_INSERT_TAIL (shopping_cart s2) new_item s2))))"

text \<open>
  The loop of \<^verbatim>\<open>remove_from_cart\<close>, returning the count from inside the body when the
  id matches, and the code after it: the message, then \<^verbatim>\<open>LIST_REMOVE\<close> and \<^verbatim>\<open>free\<close> on
  the loop variable, which is \<^verbatim>\<open>NULL\<close> there (the source comments "this will core"),
  then \<^verbatim>\<open>return 0\<close>.
\<close>

partial_function (option) remove_from_cart_loop :: "64 word \<Rightarrow> addr option \<Rightarrow> state \<Rightarrow> (fault + (32 word \<times> state) option) option" where
  "remove_from_cart_loop x var s =
     (case var of None \<Rightarrow> Some (Inr None)
      | Some a \<Rightarrow>
          (case get_item (Some a) s of Inl e \<Rightarrow> Some (Inl e)
           | Inr it \<Rightarrow>
               (if item_id it = x
                then (case andThen (LIST_REMOVE (Some a) s) (free (Some a)) of
                        Inl e \<Rightarrow> Some (Inl e)
                      | Inr s' \<Rightarrow> Some (Inr (Some (count it, s'))))
                else remove_from_cart_loop x (le_next it) s)))"

declare remove_from_cart_loop.simps [code]

definition remove_from_cart :: "64 word \<Rightarrow> state \<Rightarrow> (fault + 32 word \<times> state) option" where
  "remove_from_cart x s =
     (case get_lh_first (shopping_cart s) s of Inl e \<Rightarrow> Some (Inl e)
      | Inr first \<Rightarrow>
          (case remove_from_cart_loop x first s of None \<Rightarrow> None
           | Some (Inl e) \<Rightarrow> Some (Inl e)
           | Some (Inr (Some r)) \<Rightarrow> Some (Inr r)
           | Some (Inr None) \<Rightarrow>
               (case andThen (LIST_REMOVE None (printf_failed_to_find x s)) (free None) of
                  Inl e \<Rightarrow> Some (Inl e)
                | Inr s' \<Rightarrow> Some (Inr (0, s')))))"

definition get_cost :: "64 word \<Rightarrow> 32 word" where
  "get_cost x = (if x = 1 then 10 else if x = 2 then 12 else 0)"

definition get_name :: "64 word \<Rightarrow> string" where
  "get_name x = (if x = 1 then ''apple'' else if x = 2 then ''banana'' else ''bad id'')"

section \<open>The list invariant and the contents of the cart\<close>

text \<open>
  \<open>chain s r as\<close>: starting at the pointer field \<open>r\<close>, the forward pointers visit exactly
  the items \<open>as\<close>, in this order, and end with \<^verbatim>\<open>NULL\<close>; every item visited is live and
  its \<^verbatim>\<open>le_prev\<close> addresses the pointer field that points to it.
\<close>

fun chain :: "state \<Rightarrow> link \<Rightarrow> addr list \<Rightarrow> bool" where
  "chain s r [] = (load r s = Inr None)"
| "chain s r (a # as) =
     (load r s = Inr (Some a) \<and> map_option le_prev (items s a) = Some (Some r) \<and>
      chain s (Le_next a) as)"

text \<open>
  The invariant of the list whose head lives at \<open>h\<close>: the elements \<open>as\<close> are reached
  from \<^verbatim>\<open>lh_first\<close> in order, each of them once.
\<close>

definition list_inv :: "state \<Rightarrow> addr \<Rightarrow> addr list \<Rightarrow> bool" where
  "list_inv s h as = (chain s (Lh_first h) as \<and> distinct as)"

text \<open>A cart: \<^verbatim>\<open>shopping_cart\<close> points to a live head whose list is \<open>as\<close>.\<close>

definition cart_inv :: "state \<Rightarrow> addr \<Rightarrow> addr list \<Rightarrow> bool" where
  "cart_inv s h as = (shopping_cart s = Some h \<and> list_inv s h as)"

text \<open>The id and the count stored at an address, when an item lives there.\<close>

definition entry :: "state \<Rightarrow> addr \<Rightarrow> (64 word \<times> 32 word) option" where
  "entry s a = map_option (\<lambda>it. (item_id it, count it)) (items s a)"

text \<open>The first element of \<open>as\<close> whose id is \<open>x\<close>: what both cart loops look for.\<close>

definition find_id :: "state \<Rightarrow> 64 word \<Rightarrow> addr list \<Rightarrow> addr option" where
  "find_id s x as = find (\<lambda>a. map_option item_id (items s a) = Some x) as"

text \<open>The list after element \<open>e\<close> has been put behind its member \<open>l\<close>.\<close>

fun insert_after_list :: "addr \<Rightarrow> addr \<Rightarrow> addr list \<Rightarrow> addr list" where
  "insert_after_list l e [] = []"
| "insert_after_list l e (b # bs) = (if b = l then b # e # bs else b # insert_after_list l e bs)"

text \<open>
  The two views of a state the invariant depends on: what each pointer field holds, and
  the back-link of each item. \<open>path\<close> is \<open>chain\<close> over these two functions.
\<close>

definition nxt :: "state \<Rightarrow> link \<Rightarrow> fault + addr option" where
  "nxt s r = load r s"

definition prv :: "state \<Rightarrow> addr \<Rightarrow> link option option" where
  "prv s a = map_option le_prev (items s a)"

fun path :: "(link \<Rightarrow> fault + addr option) \<Rightarrow> (addr \<Rightarrow> link option option) \<Rightarrow> link \<Rightarrow> addr list \<Rightarrow> bool" where
  "path N P r [] = (N r = Inr None)"
| "path N P r (a # as) = (N r = Inr (Some a) \<and> P a = Some (Some r) \<and> path N P (Le_next a) as)"

text \<open>
  What the list macros leave alone: the cart pointer, the output, which heads are live,
  and the id and count of every item (hence also which items are live).
\<close>

definition same_payload :: "state \<Rightarrow> state \<Rightarrow> bool" where
  "same_payload s s' =
     (shopping_cart s' = shopping_cart s \<and> out s' = out s \<and>
      dom (lh_first s') = dom (lh_first s) \<and> (\<forall>a. entry s' a = entry s a))"

section \<open>Sequences of calls\<close>

text \<open>
  \<^verbatim>\<open>LIST_INSERT_TAIL\<close> applied to the elements \<open>es\<close> one after the other, and
  \<^verbatim>\<open>add_to_cart\<close> called once per element of \<open>ms\<close> with the same id (the element is
  what \<^verbatim>\<open>malloc\<close> answers in that call). A fault, or a call that does not return, ends
  the sequence.
\<close>

fun insert_tail_each :: "addr \<Rightarrow> addr list \<Rightarrow> state \<Rightarrow> (fault + state) option" where
  "insert_tail_each h [] s = Some (Inr s)"
| "insert_tail_each h (e # es) s =
     (case LIST_INSERT_TAIL (Some h) (Some e) s of
        Some (Inr s1) \<Rightarrow> insert_tail_each h es s1
      | r \<Rightarrow> r)"

fun add_to_cart_each :: "(addr \<times> item) option list \<Rightarrow> 64 word \<Rightarrow> state \<Rightarrow> (fault + state) option" where
  "add_to_cart_each [] x s = Some (Inr s)"
| "add_to_cart_each (m # ms) x s =
     (case add_to_cart m x s of
        Some (Inr s1) \<Rightarrow> add_to_cart_each ms x s1
      | r \<Rightarrow> r)"

text \<open>
  A sequence of calls of the two cart functions, run from a state: the values the calls
  have returned (\<open>None\<close> for the \<^verbatim>\<open>void\<close> \<^verbatim>\<open>add_to_cart\<close>), and then either the fault
  that ended the run or the state after the last call.
\<close>

datatype call = Add_to_cart "(addr \<times> item) option" "64 word" | Remove_from_cart "64 word"

fun run :: "call list \<Rightarrow> state \<Rightarrow> (32 word option list \<times> (fault + state)) option" where
  "run [] s = Some ([], Inr s)"
| "run (Add_to_cart m x # cs) s =
     (case add_to_cart m x s of None \<Rightarrow> None
      | Some (Inl e) \<Rightarrow> Some ([], Inl e)
      | Some (Inr s1) \<Rightarrow>
          (case run cs s1 of None \<Rightarrow> None | Some (rs, r) \<Rightarrow> Some (None # rs, r)))"
| "run (Remove_from_cart x # cs) s =
     (case remove_from_cart x s of None \<Rightarrow> None
      | Some (Inl e) \<Rightarrow> Some ([], Inl e)
      | Some (Inr (c, s1)) \<Rightarrow>
          (case run cs s1 of None \<Rightarrow> None | Some (rs, r) \<Rightarrow> Some (Some c # rs, r)))"

section \<open>Example states\<close>


definition stale :: item where
  "stale = \<lparr>item_id = 57005, count = 48879, le_next = Some 77, le_prev = Some (Le_next 78)\<rparr>"

definition cart_12 :: state where
  "cart_12 =
     \<lparr>shopping_cart = Some 0,
      lh_first = [0 \<mapsto> Some 1],
      items = [1 \<mapsto> \<lparr>item_id = 1, count = 1, le_next = Some 2, le_prev = Some (Lh_first 0)\<rparr>,
               2 \<mapsto> \<lparr>item_id = 2, count = 3, le_next = None, le_prev = Some (Le_next 1)\<rparr>,
               3 \<mapsto> stale],
      out = []\<rparr>"

text \<open>
  A state with an empty list at address 0 and three live items that are in no list, and
  the state \<open>cart_12\<close> turns into when its first element is inserted at the head a
  second time: item 1 is its own successor.
\<close>

definition loose_items :: state where
  "loose_items = \<lparr>shopping_cart = Some 0, lh_first = [0 \<mapsto> None],
                   items = [1 \<mapsto> stale, 2 \<mapsto> stale, 3 \<mapsto> stale], out = []\<rparr>"

definition cart_cycle :: state where
  "cart_cycle =
     \<lparr>shopping_cart = Some 0,
      lh_first = [0 \<mapsto> Some 1],
      items = [1 \<mapsto> \<lparr>item_id = 1, count = 1, le_next = Some 1, le_prev = Some (Lh_first 0)\<rparr>,
               2 \<mapsto> \<lparr>item_id = 2, count = 3, le_next = None, le_prev = Some (Le_next 1)\<rparr>,
               3 \<mapsto> stale],
      out = []\<rparr>"

section \<open>Basic facts about the store\<close>

declare load.simps [simp del]

lemma andThen_simps [simp]: "andThen (Inl e) f = Inl e" "andThen (Inr x) f = f x"
  by (simp_all add: andThen_def)

lemma load_Le_next: "load (Le_next a) s = (case items s a of None \<Rightarrow> Inl (InvalidDeref Item) | Some it \<Rightarrow> Inr (le_next it))"
  by (simp add: load.simps get_item_def split: option.splits)

lemma load_Lh_first: "load (Lh_first h) s = (case lh_first s h of None \<Rightarrow> Inl (InvalidDeref Head) | Some p \<Rightarrow> Inr p)"
  by (simp add: load.simps get_lh_first_def)

lemma chain_path: "chain s r as = path (nxt s) (prv s) r as"
  by (induction as arbitrary: r) (simp_all add: nxt_def prv_def)

lemma path_frame:
  "N' r = N r \<Longrightarrow> (\<And>a. a \<in> set as \<Longrightarrow> N' (Le_next a) = N (Le_next a) \<and> P' a = P a) \<Longrightarrow>
   path N' P' r as = path N P r as"
  by (induction as arbitrary: r) auto

lemma path_allocated: "path N P r as \<Longrightarrow> a \<in> set as \<Longrightarrow> \<exists>q. P a = Some (Some q)"
  by (induction as arbitrary: r) auto

lemma path_succ_in: "path N P r as \<Longrightarrow> a \<in> set as \<Longrightarrow> N (Le_next a) = Inr (Some n) \<Longrightarrow> n \<in> set as"
proof (induction as arbitrary: r)
  case Nil then show ?case by simp
next
  case (Cons b bs)
  show ?case
  proof (cases "a = b")
    case True
    with Cons.prems have "path N P (Le_next a) bs" by simp
    with Cons.prems(3) show ?thesis by (cases bs) auto
  next
    case False
    with Cons show ?thesis by auto
  qed
qed

lemma path_prev_in: "path N P r as \<Longrightarrow> a \<in> set as \<Longrightarrow> P a = Some (Some q) \<Longrightarrow> 
   q = r \<or> q \<in> Le_next ` set as"
  by (induction as arbitrary: r) auto

lemma path_distinct: "path N P r as \<Longrightarrow> r \<notin> Le_next ` set as \<Longrightarrow> distinct as"
proof (induction as arbitrary: r)
  case Nil
  then show ?case by simp
next
  case (Cons a bs)
  have a: "a \<notin> set bs"
  proof
    assume "a \<in> set bs"
    moreover from Cons.prems have "path N P (Le_next a) bs" "P a = Some (Some r)" by simp_all
    ultimately have "r = Le_next a \<or> r \<in> Le_next ` set bs"
      using path_prev_in [of N P "Le_next a" bs a r] by simp
    with Cons.prems(2) show False by auto
  qed
  then have "Le_next a \<notin> Le_next ` set bs" by auto
  moreover from Cons.prems have "path N P (Le_next a) bs" by simp
  ultimately have "distinct bs" by (rule Cons.IH [rotated])
  with a show ?case by simp
qed

lemma path_no_self:
  "path N P r as \<Longrightarrow> r \<notin> Le_next ` set as \<Longrightarrow> l \<in> set as \<Longrightarrow> N (Le_next l) \<noteq> Inr (Some l)"
proof (induction as arbitrary: r)
  case Nil
  then show ?case by simp
next
  case (Cons b bs)
  show ?case
  proof (cases "b = l")
    case True
    show ?thesis
    proof
      assume self: "N (Le_next l) = Inr (Some l)"
      from Cons.prems True have "path N P (Le_next l) bs" "P l = Some (Some r)" by simp_all
      with self have "P l = Some (Some (Le_next l))" by (cases bs) auto
      with \<open>P l = Some (Some r)\<close> Cons.prems(2) True show False by auto
    qed
  next
    case False
    with Cons.prems have "l \<in> set bs" "path N P (Le_next b) bs" by auto
    moreover from path_distinct [OF Cons.prems(1,2)] have "Le_next b \<notin> Le_next ` set bs" by auto
    ultimately show ?thesis using Cons.IH by blast
  qed
qed

lemma path_prev_points:
  "path N P r as \<Longrightarrow> a \<in> set as \<Longrightarrow> P a = Some (Some ra) \<Longrightarrow> r \<notin> Le_next ` set as \<Longrightarrow> N ra = Inr (Some a)"
proof (induction as arbitrary: r)
  case Nil
  then show ?case by simp
next
  case (Cons b bs)
  show ?case
  proof (cases "b = a")
    case True
    with Cons.prems show ?thesis by simp
  next
    case False
    with Cons.prems have "a \<in> set bs" "path N P (Le_next b) bs" by auto
    moreover from path_distinct [OF Cons.prems(1,4)] have "Le_next b \<notin> Le_next ` set bs" by auto
    ultimately show ?thesis using Cons.IH Cons.prems(3) by blast
  qed
qed

lemma path_insert_head:
  assumes "path N P r as" "distinct as" "e \<notin> set as" "r \<notin> Le_next ` insert e (set as)" "N r = Inr n"
  shows "path (N(Le_next e := Inr n, r := Inr (Some e)))
              ((case n of None \<Rightarrow> P | Some n' \<Rightarrow> P(n' := Some (Some (Le_next e))))(e := Some (Some r)))
              r (e # as)"
proof -
  define N' where "N' = N(Le_next e := Inr n, r := Inr (Some e))"
  define P' where "P' = (case n of None \<Rightarrow> P | Some n' \<Rightarrow> P(n' := Some (Some (Le_next e))))(e := Some (Some r))"
  have r: "r \<noteq> Le_next e" using assms(4) by simp
  have N': "N' r = Inr (Some e)" "N' (Le_next e) = Inr n"
    using r by (simp_all add: N'_def)
  have P': "P' e = Some (Some r)" by (simp add: P'_def)
  have "path N' P' (Le_next e) as"
  proof (cases as)
    case Nil
    with assms N' show ?thesis by simp
  next
    case (Cons a bs)
    with assms have n: "n = Some a" by simp
    have "a \<noteq> e" using assms(3) Cons by simp
    then have "P' a = Some (Some (Le_next e))" by (simp add: P'_def n)
    moreover have "path N' P' (Le_next a) bs = path N P (Le_next a) bs"
      using assms Cons n by (intro path_frame) (auto simp: N'_def P'_def)
    ultimately show ?thesis using Cons assms(1) N' n by simp
  qed
  with N' P' have "path N' P' r (e # as)" by simp
  then show ?thesis unfolding N'_def P'_def .
qed

lemma path_insert_after:
  assumes "path N P r as" "distinct as" "l \<in> set as" "e \<notin> set as"
    "r \<notin> Le_next ` insert e (set as)" "N (Le_next l) = Inr n"
  shows "path (N(Le_next e := Inr n, Le_next l := Inr (Some e)))
              ((case n of None \<Rightarrow> P | Some n' \<Rightarrow> P(n' := Some (Some (Le_next e))))(e := Some (Some (Le_next l))))
              r (insert_after_list l e as)"
proof -
  define N' where "N' = N(Le_next e := Inr n, Le_next l := Inr (Some e))"
  define P' where "P' = (case n of None \<Rightarrow> P | Some n' \<Rightarrow> P(n' := Some (Some (Le_next e))))(e := Some (Some (Le_next l)))"
  have "path N' P' r (insert_after_list l e as)"
    using assms
  proof (induction as arbitrary: r)
    case Nil
    then show ?case by simp
  next
    case (Cons b bs)
    have r: "r \<noteq> Le_next l" "r \<noteq> Le_next e" using Cons.prems(3,5) by blast+
    then have Nr: "N' r = N r" by (simp add: N'_def)
    have "b \<noteq> e" using Cons.prems(4) by simp
    show ?case
    proof (cases "b = l")
      case True
      with Cons.prems have tl: "path N P (Le_next l) bs" "distinct bs" "e \<notin> set bs"
        "Le_next l \<notin> Le_next ` insert e (set bs)" by auto
      have "path N' P' (Le_next l) (e # bs)"
        using path_insert_head [OF tl Cons.prems(6)] unfolding N'_def P'_def .
      moreover have "n \<noteq> Some l"
        using tl(1) Cons.prems(6) True Cons.prems(2) by (cases bs) auto
      then have "P' l = P l" using \<open>b \<noteq> e\<close> True by (auto simp: P'_def split: option.splits)
      ultimately show ?thesis using True Cons.prems(1) Nr by simp
    next
      case False
      with Cons.prems have "l \<in> set bs" by simp
      moreover have "Le_next b \<notin> Le_next ` insert e (set bs)" using Cons.prems by auto
      ultimately have "path N' P' (Le_next b) (insert_after_list l e bs)"
        using Cons.prems by (intro Cons.IH) auto
      moreover have "n \<noteq> Some b"
        using path_succ_in [of N P "Le_next b" bs l b] Cons.prems \<open>l \<in> set bs\<close> by auto
      then have "P' b = P b" using \<open>b \<noteq> e\<close> by (auto simp: P'_def split: option.splits)
      ultimately show ?thesis using False Cons.prems(1) Nr by simp
    qed
  qed
  then show ?thesis unfolding N'_def P'_def .
qed

lemma path_remove:
  assumes "path N P r as" "distinct as" "a \<in> set as" "r \<notin> Le_next ` set as"
    "P a = Some (Some ra)" "N (Le_next a) = Inr n"
  shows "path (N(ra := Inr n)) (case n of None \<Rightarrow> P | Some n' \<Rightarrow> P(n' := Some (Some ra)))
              r (remove1 a as)"
proof -
  define N' where "N' = N(ra := Inr n)"
  define P' where "P' = (case n of None \<Rightarrow> P | Some n' \<Rightarrow> P(n' := Some (Some ra)))"
  have "path N' P' r (remove1 a as)"
    using assms
  proof (induction as arbitrary: r)
    case Nil
    then show ?case by simp
  next
    case (Cons b bs)
    show ?case
    proof (cases "b = a")
      case True
      with Cons.prems have ra: "ra = r" and tl: "path N P (Le_next a) bs" by simp_all
      have "path N' P' r bs"
      proof (cases bs)
        case Nil
        with tl Cons.prems(6) ra show ?thesis by (simp add: N'_def)
      next
        case bs: (Cons n' cs)
        with tl Cons.prems(6) have n: "n = Some n'" by simp
        have "path N' P' (Le_next n') cs = path N P (Le_next n') cs"
          using Cons.prems bs True ra n by (intro path_frame) (auto simp: N'_def P'_def)
        with tl bs have "path N' P' (Le_next n') cs" by simp
        moreover have "N' r = Inr (Some n')" "P' n' = Some (Some r)"
          using n ra by (simp_all add: N'_def P'_def)
        ultimately show ?thesis using bs by simp
      qed
      with True show ?thesis by simp
    next
      case False
      with Cons.prems have a_in: "a \<in> set bs" by simp
      from Cons.prems have tl: "path N P (Le_next b) bs" by simp
      have "ra = Le_next b \<or> ra \<in> Le_next ` set bs"
        using tl a_in Cons.prems(5) by (rule path_prev_in)
      with Cons.prems(4) have "ra \<noteq> r" by auto
      then have "N' r = N r" by (simp add: N'_def)
      moreover have "n \<noteq> Some b"
        using path_succ_in [OF tl a_in] Cons.prems by auto
      then have "P' b = P b" by (auto simp: P'_def split: option.splits)
      moreover have "path N' P' (Le_next b) (remove1 a bs)"
        using Cons.prems a_in by (intro Cons.IH) auto
      ultimately show ?thesis using False Cons.prems(1) by simp
    qed
  qed
  then show ?thesis unfolding N'_def P'_def .
qed


lemma nxt_Le_next: "nxt s (Le_next a) = (case items s a of None \<Rightarrow> Inl (InvalidDeref Item) | Some it \<Rightarrow> Inr (le_next it))"
  by (simp add: nxt_def load_Le_next)

lemma nxt_Lh_first: "nxt s (Lh_first h) = (case lh_first s h of None \<Rightarrow> Inl (InvalidDeref Head) | Some p \<Rightarrow> Inr p)"
  by (simp add: nxt_def load_Lh_first)

lemma nxt_case:
  "nxt s r = (case r of
       Lh_first h \<Rightarrow> (case lh_first s h of None \<Rightarrow> Inl (InvalidDeref Head) | Some p \<Rightarrow> Inr p)
     | Le_next a \<Rightarrow> (case items s a of None \<Rightarrow> Inl (InvalidDeref Item) | Some it \<Rightarrow> Inr (le_next it)))"
  by (cases r) (simp_all add: nxt_Le_next nxt_Lh_first)

lemma get_item_Some [simp]: "items s a = Some it \<Longrightarrow> get_item (Some a) s = Inr it"
  by (simp add: get_item_def)

lemma set_item_Some [simp]:
  "items s a = Some it \<Longrightarrow> set_item (Some a) f s = Inr (s\<lparr>items := (items s)(a \<mapsto> f it)\<rparr>)"
  by (simp add: set_item_def)

lemma get_lh_first_Some [simp]: "lh_first s h = Some p \<Longrightarrow> get_lh_first (Some h) s = Inr p"
  by (simp add: get_lh_first_def)

lemma set_lh_first_Some [simp]:
  "lh_first s h = Some p \<Longrightarrow> set_lh_first (Some h) q s = Inr (s\<lparr>lh_first := (lh_first s)(h \<mapsto> q)\<rparr>)"
  by (simp add: set_lh_first_def)

lemma LIST_INSERT_HEAD_links:
  assumes "lh_first s h = Some n" "items s e = Some g"
    "\<And>n'. n = Some n' \<Longrightarrow> n' \<noteq> e \<and> items s n' \<noteq> None"
  shows "\<exists>s'. LIST_INSERT_HEAD (Some h) (Some e) s = Inr s' \<and>
           nxt s' = (nxt s)(Le_next e := Inr n, Lh_first h := Inr (Some e)) \<and>
           prv s' = (case n of None \<Rightarrow> prv s | Some n' \<Rightarrow> (prv s)(n' := Some (Some (Le_next e))))
                       (e := Some (Some (Lh_first h))) \<and>
           same_payload s s'"
proof (cases n)
  case None
  with assms(1,2) show ?thesis
    by (auto simp: LIST_INSERT_HEAD_def addr_lh_first_def fun_eq_iff nxt_case prv_def
        same_payload_def entry_def split: link.splits)
next
  case (Some n')
  with assms(3) obtain itn where "items s n' = Some itn" "n' \<noteq> e" by auto
  with Some assms(1,2) show ?thesis
    by (auto simp: LIST_INSERT_HEAD_def addr_lh_first_def addr_le_next_def fun_eq_iff nxt_case prv_def
        same_payload_def entry_def split: link.splits)
qed

lemma LIST_INSERT_AFTER_links:
  assumes "items s l = Some itl" "items s e = Some g" "l \<noteq> e"
    "\<And>n'. le_next itl = Some n' \<Longrightarrow> n' \<noteq> e \<and> n' \<noteq> l \<and> items s n' \<noteq> None"
  shows "\<exists>s'. LIST_INSERT_AFTER (Some l) (Some e) s = Inr s' \<and>
           nxt s' = (nxt s)(Le_next e := Inr (le_next itl), Le_next l := Inr (Some e)) \<and>
           prv s' = (case le_next itl of None \<Rightarrow> prv s | Some n' \<Rightarrow> (prv s)(n' := Some (Some (Le_next e))))
                       (e := Some (Some (Le_next l))) \<and>
           same_payload s s'"
proof (cases "le_next itl")
  case None
  with assms(1,2,3) show ?thesis
    by (auto simp: LIST_INSERT_AFTER_def addr_le_next_def fun_eq_iff nxt_case prv_def
        same_payload_def entry_def split: link.splits)
next
  case (Some n')
  with assms(4) obtain itn where "items s n' = Some itn" "n' \<noteq> e" "n' \<noteq> l" by auto
  with Some assms(1,2,3) show ?thesis
    by (auto simp: LIST_INSERT_AFTER_def addr_le_next_def fun_eq_iff nxt_case prv_def
        same_payload_def entry_def split: link.splits)
qed

lemma store_valid:
  assumes "nxt s r = Inr p"
  shows "\<exists>s'. store r q s = Inr s' \<and> nxt s' = (nxt s)(r := Inr q) \<and> prv s' = prv s \<and> same_payload s s'"
proof (cases r)
  case (Lh_first h)
  with assms have "lh_first s h = Some p" by (simp add: nxt_Lh_first split: option.splits)
  with Lh_first show ?thesis
    by (auto simp: fun_eq_iff nxt_case prv_def same_payload_def entry_def split: link.splits)
next
  case (Le_next a)
  with assms obtain it where "items s a = Some it" by (auto simp add: nxt_Le_next split: option.splits)
  with Le_next show ?thesis
    by (auto simp: fun_eq_iff nxt_case prv_def same_payload_def entry_def split: link.splits)
qed

lemma LIST_REMOVE_links:
  assumes "items s a = Some ita" "le_prev ita = Some ra" "nxt s ra = Inr p"
    "\<And>n'. le_next ita = Some n' \<Longrightarrow> n' \<noteq> a \<and> items s n' \<noteq> None"
  shows "\<exists>s'. LIST_REMOVE (Some a) s = Inr s' \<and>
           nxt s' = (nxt s)(ra := Inr (le_next ita)) \<and>
           prv s' = (case le_next ita of None \<Rightarrow> prv s | Some n' \<Rightarrow> (prv s)(n' := Some (Some ra))) \<and>
           same_payload s s'"
proof (cases "le_next ita")
  case None
  with assms(1,2) store_valid [OF assms(3), of "None"] show ?thesis
    by (auto simp: LIST_REMOVE_def)
next
  case (Some n')
  with assms(4) obtain itn where n: "items s n' = Some itn" "n' \<noteq> a" by auto
  define s1 where "s1 = s\<lparr>items := (items s)(n' \<mapsto> itn\<lparr>le_prev := Some ra\<rparr>)\<rparr>"
  have s1: "nxt s1 = nxt s" "prv s1 = (prv s)(n' := Some (Some ra))" "same_payload s s1" "items s1 a = Some ita"
    using n assms(1) by (auto simp: s1_def fun_eq_iff nxt_case prv_def same_payload_def entry_def split: link.splits)
  from assms(3) s1(1) have "nxt s1 ra = Inr p" by simp
  from store_valid [OF this, of "Some n'"] obtain s' where
    "store ra (Some n') s1 = Inr s'" "nxt s' = (nxt s1)(ra := Inr (Some n'))" "prv s' = prv s1" "same_payload s1 s'"
    by blast
  with s1 Some n assms(1,2) show ?thesis
    by (auto simp: LIST_REMOVE_def s1_def [symmetric] same_payload_def)
qed


lemma list_inv_path: "list_inv s h as = (path (nxt s) (prv s) (Lh_first h) as \<and> distinct as)"
  by (simp add: list_inv_def chain_path)

lemma list_inv_allocated: "list_inv s h as \<Longrightarrow> a \<in> set as \<Longrightarrow> \<exists>it. items s a = Some it"
  using path_allocated [of "nxt s" "prv s" "Lh_first h" as a]
  by (auto simp: list_inv_path prv_def)

lemma same_payload_items: "same_payload s s' \<Longrightarrow> (items s' a = None) = (items s a = None)"
proof -
  assume "same_payload s s'"
  then have "entry s' a = entry s a" by (simp add: same_payload_def)
  then show ?thesis by (cases "items s a"; cases "items s' a") (auto simp: entry_def)
qed

lemma set_insert_after_list: "set (insert_after_list l e as) \<subseteq> insert e (set as)"
  by (induction as) auto

lemma distinct_insert_after_list:
  "distinct as \<Longrightarrow> e \<notin> set as \<Longrightarrow> distinct (insert_after_list l e as)"
  using set_insert_after_list [of l e] by (induction as) auto

lemma LIST_INSERT_HEAD_list_inv:
  assumes "list_inv s h as" "items s e = Some g" "e \<notin> set as"
  shows "\<exists>s'. LIST_INSERT_HEAD (Some h) (Some e) s = Inr s' \<and> list_inv s' h (e # as) \<and>
           same_payload s s'"
proof -
  from assms(1) have p: "path (nxt s) (prv s) (Lh_first h) as" and d: "distinct as"
    by (simp_all add: list_inv_path)
  obtain n where n: "lh_first s h = Some n" "nxt s (Lh_first h) = Inr n"
    using p by (cases as) (auto simp: nxt_Lh_first split: option.splits)
  have "\<And>n'. n = Some n' \<Longrightarrow> n' \<noteq> e \<and> items s n' \<noteq> None"
    using p n(2) assms(3) list_inv_allocated [OF assms(1)] by (cases as) auto
  from LIST_INSERT_HEAD_links [OF n(1) assms(2) this] obtain s' where s':
    "LIST_INSERT_HEAD (Some h) (Some e) s = Inr s'"
    "nxt s' = (nxt s)(Le_next e := Inr n, Lh_first h := Inr (Some e))"
    "prv s' = (case n of None \<Rightarrow> prv s | Some n' \<Rightarrow> (prv s)(n' := Some (Some (Le_next e))))
                       (e := Some (Some (Lh_first h)))"
    "same_payload s s'" by blast
  have "path (nxt s') (prv s') (Lh_first h) (e # as)"
    unfolding s'(2,3) using p d assms(3) _ n(2) by (rule path_insert_head) auto
  with s' d assms(3) show ?thesis by (auto simp: list_inv_path)
qed

lemma LIST_INSERT_AFTER_list_inv:
  assumes "list_inv s h as" "l \<in> set as" "items s e = Some g" "e \<notin> set as"
  shows "\<exists>s'. LIST_INSERT_AFTER (Some l) (Some e) s = Inr s' \<and>
           list_inv s' h (insert_after_list l e as) \<and> same_payload s s'"
proof -
  from assms(1) have p: "path (nxt s) (prv s) (Lh_first h) as" and d: "distinct as"
    by (simp_all add: list_inv_path)
  obtain itl where itl: "items s l = Some itl"
    using list_inv_allocated [OF assms(1,2)] by blast
  then have nl: "nxt s (Le_next l) = Inr (le_next itl)" by (simp add: nxt_Le_next)
  have le: "l \<noteq> e" using assms(2,4) by auto
  have "\<And>n'. le_next itl = Some n' \<Longrightarrow> n' \<noteq> e \<and> n' \<noteq> l \<and> items s n' \<noteq> None"
  proof -
    fix n' assume "le_next itl = Some n'"
    with nl have n': "nxt s (Le_next l) = Inr (Some n')" by simp
    from path_succ_in [OF p assms(2) n'] have "n' \<in> set as" .
    moreover have "n' \<noteq> l"
      using path_no_self [OF p _ assms(2)] n' by auto
    ultimately show "n' \<noteq> e \<and> n' \<noteq> l \<and> items s n' \<noteq> None"
      using assms(4) list_inv_allocated [OF assms(1)] by auto
  qed
  from LIST_INSERT_AFTER_links [OF itl assms(3) le this] obtain s' where s':
    "LIST_INSERT_AFTER (Some l) (Some e) s = Inr s'"
    "nxt s' = (nxt s)(Le_next e := Inr (le_next itl), Le_next l := Inr (Some e))"
    "prv s' = (case le_next itl of None \<Rightarrow> prv s | Some n' \<Rightarrow> (prv s)(n' := Some (Some (Le_next e))))
                       (e := Some (Some (Le_next l)))"
    "same_payload s s'" by blast
  have "path (nxt s') (prv s') (Lh_first h) (insert_after_list l e as)"
    unfolding s'(2,3) using p d assms(2,4) _ nl by (rule path_insert_after) auto
  moreover have "distinct (insert_after_list l e as)"
    using d assms(4) by (rule distinct_insert_after_list)
  ultimately show ?thesis using s' by (auto simp: list_inv_path)
qed


lemma LIST_REMOVE_list_inv:
  assumes "list_inv s h as" "a \<in> set as"
  shows "\<exists>s'. LIST_REMOVE (Some a) s = Inr s' \<and> list_inv s' h (remove1 a as) \<and>
           same_payload s s'"
proof -
  from assms(1) have p: "path (nxt s) (prv s) (Lh_first h) as" and d: "distinct as"
    by (simp_all add: list_inv_path)
  have r: "Lh_first h \<notin> Le_next ` set as" by auto
  obtain ita where ita: "items s a = Some ita"
    using list_inv_allocated [OF assms] by blast
  then have na: "nxt s (Le_next a) = Inr (le_next ita)" by (simp add: nxt_Le_next)
  obtain ra where ra: "prv s a = Some (Some ra)"
    using path_allocated [OF p assms(2)] by blast
  with ita have lp: "le_prev ita = Some ra" by (simp add: prv_def)
  have nr: "nxt s ra = Inr (Some a)"
    using p assms(2) ra r by (rule path_prev_points)
  have "\<And>n'. le_next ita = Some n' \<Longrightarrow> n' \<noteq> a \<and> items s n' \<noteq> None"
  proof -
    fix n' assume "le_next ita = Some n'"
    with na have n': "nxt s (Le_next a) = Inr (Some n')" by simp
    from path_succ_in [OF p assms(2) n'] have "n' \<in> set as" .
    moreover have "n' \<noteq> a"
      using path_no_self [OF p r assms(2)] n' by auto
    ultimately show "n' \<noteq> a \<and> items s n' \<noteq> None"
      using list_inv_allocated [OF assms(1)] by auto
  qed
  from LIST_REMOVE_links [OF ita lp nr this] obtain s' where s':
    "LIST_REMOVE (Some a) s = Inr s'"
    "nxt s' = (nxt s)(ra := Inr (le_next ita))"
    "prv s' = (case le_next ita of None \<Rightarrow> prv s | Some n' \<Rightarrow> (prv s)(n' := Some (Some ra)))"
    "same_payload s s'" by blast
  have "path (nxt s') (prv s') (Lh_first h) (remove1 a as)"
    unfolding s'(2,3) using p d assms(2) r ra na by (rule path_remove)
  with s' d show ?thesis by (auto simp: list_inv_path)
qed

lemma LIST_INSERT_TAIL_scan_last:
  "path (nxt s) (prv s) r (a # as) \<Longrightarrow>
   LIST_INSERT_TAIL_scan (Some a) s = Some (Inr (Some (last (a # as))))"
proof (induction as arbitrary: r a)
  case Nil
  then obtain it where "items s a = Some it" "le_next it = None"
    by (auto simp: prv_def nxt_Le_next split: option.splits)
  then show ?case by (subst LIST_INSERT_TAIL_scan.simps) simp
next
  case (Cons b bs)
  then obtain it where "items s a = Some it" "le_next it = Some b"
    by (auto simp: prv_def nxt_Le_next split: option.splits)
  moreover from Cons.prems have "path (nxt s) (prv s) (Le_next a) (b # bs)" by simp
  then have "LIST_INSERT_TAIL_scan (Some b) s = Some (Inr (Some (last (b # bs))))"
    by (rule Cons.IH)
  ultimately show ?case by (subst LIST_INSERT_TAIL_scan.simps) simp
qed

lemma insert_after_list_last:
  "as \<noteq> [] \<Longrightarrow> distinct as \<Longrightarrow> insert_after_list (last as) e as = as @ [e]"
  by (induction as) auto

lemma LIST_INSERT_TAIL_list_inv:
  assumes "list_inv s h as" "items s e = Some g" "e \<notin> set as"
  shows "\<exists>s'. LIST_INSERT_TAIL (Some h) (Some e) s = Some (Inr s') \<and> list_inv s' h (as @ [e]) \<and>
           same_payload s s'"
proof (cases as)
  case Nil
  with assms(1) have "lh_first s h = Some None"
    by (auto simp: list_inv_path nxt_Lh_first split: option.splits)
  with LIST_INSERT_HEAD_list_inv [OF assms] Nil show ?thesis
    by (simp add: LIST_INSERT_TAIL_def)
next
  case (Cons a bs)
  with assms(1) have p: "path (nxt s) (prv s) (Lh_first h) (a # bs)" and d: "distinct as"
    by (simp_all add: list_inv_path)
  then have first: "lh_first s h = Some (Some a)"
    by (auto simp: nxt_Lh_first split: option.splits)
  have scan: "LIST_INSERT_TAIL_scan (Some a) s = Some (Inr (Some (last as)))"
    using LIST_INSERT_TAIL_scan_last [OF p] Cons by simp
  have "last as \<in> set as" using Cons by simp
  from LIST_INSERT_AFTER_list_inv [OF assms(1) this assms(2,3)] obtain s' where
    "LIST_INSERT_AFTER (Some (last as)) (Some e) s = Inr s'"
    "list_inv s' h (insert_after_list (last as) e as)" "same_payload s s'" by blast
  moreover have "insert_after_list (last as) e as = as @ [e]"
    using Cons d by (intro insert_after_list_last) auto
  ultimately show ?thesis using first scan
    by (simp add: LIST_INSERT_TAIL_def)
qed

lemma LIST_FOREACH_from_path:
  "path (nxt s) (prv s) r as \<Longrightarrow> nxt s r = Inr p \<Longrightarrow>
   LIST_FOREACH_from p s seen = Some (Inr (seen @ as))"
proof (induction as arbitrary: r p seen)
  case Nil
  then show ?case by (subst LIST_FOREACH_from.simps) simp
next
  case (Cons a as)
  then obtain it where it: "items s a = Some it" 
    by (auto simp: prv_def)
  then have "nxt s (Le_next a) = Inr (le_next it)" by (simp add: nxt_Le_next)
  moreover from Cons.prems have "path (nxt s) (prv s) (Le_next a) as" by simp
  ultimately have "LIST_FOREACH_from (le_next it) s (seen @ [a]) = Some (Inr ((seen @ [a]) @ as))"
    by (rule Cons.IH [rotated])
  with Cons.prems it show ?case by (subst LIST_FOREACH_from.simps) simp
qed

lemma LIST_FOREACH_list_inv:
  assumes "list_inv s h as"
  shows "LIST_FOREACH (Some h) s = Some (Inr as)"
proof -
  from assms have p: "path (nxt s) (prv s) (Lh_first h) as" by (simp add: list_inv_path)
  then obtain n where n: "lh_first s h = Some n" "nxt s (Lh_first h) = Inr n"
    by (cases as) (auto simp: nxt_Lh_first split: option.splits)
  from LIST_FOREACH_from_path [OF p n(2), of "[]"] n(1) show ?thesis
    by (simp add: LIST_FOREACH_def)
qed


lemma list_inv_same_links:
  "nxt s' = nxt s \<Longrightarrow> prv s' = prv s \<Longrightarrow> list_inv s' h as = list_inv s h as"
  by (simp add: list_inv_path)

lemma list_inv_frame:
  assumes "lh_first s' = lh_first s" "\<And>a. a \<in> set as \<Longrightarrow> items s' a = items s a"
  shows "list_inv s' h as = list_inv s h as"
proof -
  have "path (nxt s') (prv s') (Lh_first h) as = path (nxt s) (prv s) (Lh_first h) as"
    using assms by (intro path_frame) (auto simp: nxt_case prv_def)
  then show ?thesis by (simp add: list_inv_path)
qed

lemma find_id_entry: "find_id s x as = find (\<lambda>a. map_option fst (entry s a) = Some x) as"
  by (simp add: find_id_def entry_def option.map_comp comp_def)

lemma find_id_Some:
  "find_id s x as = Some a \<Longrightarrow> a \<in> set as \<and> (\<exists>it. items s a = Some it \<and> item_id it = x)"
  by (auto simp: find_id_def find_Some_iff)

lemma add_to_cart_loop_miss:
  "path (nxt s) (prv s) r as \<Longrightarrow> nxt s r = Inr p \<Longrightarrow> find_id s x as = None \<Longrightarrow>
   add_to_cart_loop x p s = Some (Inr None)"
proof (induction as arbitrary: r p)
  case Nil
  then show ?case by (subst add_to_cart_loop.simps) simp
next
  case (Cons a as)
  then obtain it where it: "items s a = Some it" by (auto simp: prv_def)
  with Cons.prems have id: "item_id it \<noteq> x" by (auto simp: find_id_def split: if_splits)
  from it have "nxt s (Le_next a) = Inr (le_next it)" by (simp add: nxt_Le_next)
  moreover from Cons.prems have "path (nxt s) (prv s) (Le_next a) as" "find_id s x as = None"
    by (auto simp: find_id_def split: if_splits)
  ultimately have "add_to_cart_loop x (le_next it) s = Some (Inr None)"
    using Cons.IH by blast
  with Cons.prems it id show ?case by (subst add_to_cart_loop.simps) simp
qed

lemma add_to_cart_loop_hit:
  "path (nxt s) (prv s) r as \<Longrightarrow> nxt s r = Inr p \<Longrightarrow> find_id s x as = Some b \<Longrightarrow>
   items s b = Some itb \<Longrightarrow>
   add_to_cart_loop x p s = Some (Inr (Some (s\<lparr>items := (items s)(b \<mapsto> itb\<lparr>count := count itb + 1\<rparr>)\<rparr>)))"
proof (induction as arbitrary: r p)
  case Nil
  then show ?case by (simp add: find_id_def)
next
  case (Cons a as)
  then obtain it where it: "items s a = Some it" by (auto simp: prv_def)
  show ?case
  proof (cases "item_id it = x")
    case True
    with Cons.prems it have "b = a" by (simp add: find_id_def)
    with Cons.prems it True show ?thesis by (subst add_to_cart_loop.simps) simp
  next
    case False
    from it have "nxt s (Le_next a) = Inr (le_next it)" by (simp add: nxt_Le_next)
    moreover from Cons.prems it False have "path (nxt s) (prv s) (Le_next a) as" "find_id s x as = Some b"
      by (auto simp: find_id_def)
    ultimately have "add_to_cart_loop x (le_next it) s =
        Some (Inr (Some (s\<lparr>items := (items s)(b \<mapsto> itb\<lparr>count := count itb + 1\<rparr>)\<rparr>)))"
      using Cons.IH Cons.prems(4) by blast
    with Cons.prems it False show ?thesis by (subst add_to_cart_loop.simps) simp
  qed
qed


lemma remove_from_cart_loop_hit:
  "path (nxt s) (prv s) r as \<Longrightarrow> nxt s r = Inr p \<Longrightarrow> find_id s x as = Some b \<Longrightarrow>
   items s b = Some itb \<Longrightarrow>
   remove_from_cart_loop x p s =
     (case andThen (LIST_REMOVE (Some b) s) (free (Some b)) of
        Inl e \<Rightarrow> Some (Inl e)
      | Inr s' \<Rightarrow> Some (Inr (Some (count itb, s'))))"
proof (induction as arbitrary: r p)
  case Nil
  then show ?case by (simp add: find_id_def)
next
  case (Cons a as)
  then obtain it where it: "items s a = Some it" by (auto simp: prv_def)
  show ?case
  proof (cases "item_id it = x")
    case True
    with Cons.prems it have "b = a" by (simp add: find_id_def)
    with Cons.prems it True show ?thesis by (subst remove_from_cart_loop.simps) simp
  next
    case False
    from it have "nxt s (Le_next a) = Inr (le_next it)" by (simp add: nxt_Le_next)
    moreover from Cons.prems it False have "path (nxt s) (prv s) (Le_next a) as" "find_id s x as = Some b"
      by (auto simp: find_id_def)
    ultimately have "remove_from_cart_loop x (le_next it) s =
       (case andThen (LIST_REMOVE (Some b) s) (free (Some b)) of
        Inl e \<Rightarrow> Some (Inl e)
      | Inr s' \<Rightarrow> Some (Inr (Some (count itb, s'))))"
      using Cons.IH Cons.prems(4) by blast
    with Cons.prems it False show ?thesis by (subst remove_from_cart_loop.simps) simp
  qed
qed

lemma cart_inv_first:
  assumes "cart_inv s h as"
  obtains n where "shopping_cart s = Some h" "lh_first s h = Some n" "nxt s (Lh_first h) = Inr n"
    "path (nxt s) (prv s) (Lh_first h) as" "distinct as"
proof -
  from assms have p: "path (nxt s) (prv s) (Lh_first h) as" "distinct as" "shopping_cart s = Some h"
    by (simp_all add: cart_inv_def list_inv_path)
  then obtain n where "lh_first s h = Some n" "nxt s (Lh_first h) = Inr n"
    by (cases as) (auto simp: nxt_Lh_first split: option.splits)
  with p that show ?thesis by blast
qed

text \<open>
  What the cart functions do once \<^verbatim>\<open>shopping_cart\<close> points to a live head with a
  well-formed list: \<^verbatim>\<open>add_to_cart\<close> adds 1 to the count of the first item with the id
  or, when there is none, makes the block \<^verbatim>\<open>malloc\<close> returns the new tail with count 1;
  \<^verbatim>\<open>remove_from_cart\<close> unlinks and frees the first item with the id and returns its
  count, and faults when there is none.
\<close>

lemma add_to_cart_found:
  assumes "cart_inv s h as" "find_id s x as = Some a"
  shows "\<exists>s'. add_to_cart m x s = Some (Inr s') \<and> cart_inv s' h as \<and>
           entry s' a = map_option (\<lambda>(i, c). (i, c + 1)) (entry s a) \<and>
           (\<forall>b. b \<noteq> a \<longrightarrow> items s' b = items s b) \<and>
           lh_first s' = lh_first s \<and> out s' = out s"
proof -
  from assms(1) obtain n where c: "shopping_cart s = Some h" "lh_first s h = Some n"
    "nxt s (Lh_first h) = Inr n" "path (nxt s) (prv s) (Lh_first h) as" "distinct as"
    by (rule cart_inv_first)
  from find_id_Some [OF assms(2)] obtain it where it: "items s a = Some it" by blast
  define s' where "s' = s\<lparr>items := (items s)(a \<mapsto> it\<lparr>count := count it + 1\<rparr>)\<rparr>"
  have "add_to_cart_loop x n s = Some (Inr (Some s'))"
    unfolding s'_def using c(4,3) assms(2) it by (rule add_to_cart_loop_hit)
  with c have "add_to_cart m x s = Some (Inr s')" by (simp add: add_to_cart_def)
  moreover have "nxt s' = nxt s" "prv s' = prv s"
    using it by (auto simp: s'_def fun_eq_iff nxt_case prv_def split: link.splits)
  then have "list_inv s' h as = list_inv s h as" by (rule list_inv_same_links)
  with assms(1) c(1) have "cart_inv s' h as" by (simp add: cart_inv_def s'_def)
  moreover have "entry s' a = map_option (\<lambda>(i, c). (i, c + 1)) (entry s a)"
    using it by (simp add: s'_def entry_def)
  ultimately show ?thesis by (auto simp: s'_def)
qed

lemma add_to_cart_new:
  assumes "cart_inv s h as" "find_id s x as = None" "items s a = None"
  shows "\<exists>s'. add_to_cart (Some (a, g)) x s = Some (Inr s') \<and> cart_inv s' h (as @ [a]) \<and>
           entry s' a = Some (x, 1) \<and> (\<forall>b. b \<noteq> a \<longrightarrow> entry s' b = entry s b) \<and>
           out s' = out s"
proof -
  from assms(1) obtain n where c: "shopping_cart s = Some h" "lh_first s h = Some n"
    "nxt s (Lh_first h) = Inr n" "path (nxt s) (prv s) (Lh_first h) as" "distinct as"
    by (rule cart_inv_first)
  from assms(1) have li: "list_inv s h as" by (simp add: cart_inv_def)
  have a: "a \<notin> set as" using list_inv_allocated [OF li, of a] assms(3) by auto
  define s2 where "s2 = s\<lparr>items := (items s)(a \<mapsto> g\<lparr>item_id := x, count := 1\<rparr>)\<rparr>"
  have loop: "add_to_cart_loop x n s = Some (Inr None)"
    using c(4,3) assms(2) by (rule add_to_cart_loop_miss)
  have "list_inv s2 h as = list_inv s h as"
    using a by (intro list_inv_frame) (auto simp: s2_def)
  with li have li2: "list_inv s2 h as" by simp
  have "items s2 a = Some (g\<lparr>item_id := x, count := 1\<rparr>)" by (simp add: s2_def)
  from LIST_INSERT_TAIL_list_inv [OF li2 this a] obtain s' where s':
    "LIST_INSERT_TAIL (Some h) (Some a) s2 = Some (Inr s')" "list_inv s' h (as @ [a])"
    "same_payload s2 s'" by blast
  have "add_to_cart (Some (a, g)) x s = Some (Inr s')"
    using c loop s'(1) by (simp add: add_to_cart_def malloc_def s2_def)
  moreover have "cart_inv s' h (as @ [a])"
    using s'(2,3) c(1) by (simp add: cart_inv_def same_payload_def s2_def)
  moreover have "entry s' b = entry s2 b" for b using s'(3) by (simp add: same_payload_def)
  then have "entry s' a = Some (x, 1)" "\<forall>b. b \<noteq> a \<longrightarrow> entry s' b = entry s b"
    by (simp_all add: s2_def entry_def)
  moreover have "out s' = out s" using s'(3) by (simp add: same_payload_def s2_def)
  ultimately show ?thesis by blast
qed


lemma remove_from_cart_found:
  assumes "cart_inv s h as" "find_id s x as = Some a" "items s a = Some it"
  shows "\<exists>s'. remove_from_cart x s = Some (Inr (count it, s')) \<and> cart_inv s' h (remove1 a as) \<and>
           items s' a = None \<and> (\<forall>b. b \<noteq> a \<longrightarrow> entry s' b = entry s b) \<and> out s' = out s"
proof -
  from assms(1) obtain n where c: "shopping_cart s = Some h" "lh_first s h = Some n"
    "nxt s (Lh_first h) = Inr n" "path (nxt s) (prv s) (Lh_first h) as" "distinct as"
    by (rule cart_inv_first)
  from assms(1) have li: "list_inv s h as" by (simp add: cart_inv_def)
  have a: "a \<in> set as" using find_id_Some [OF assms(2)] by simp
  from LIST_REMOVE_list_inv [OF li a] obtain s1 where s1:
    "LIST_REMOVE (Some a) s = Inr s1" "list_inv s1 h (remove1 a as)" "same_payload s s1" by blast
  from same_payload_items [OF s1(3), of a] assms(3) obtain it1 where it1: "items s1 a = Some it1"
    by auto
  define s' where "s' = s1\<lparr>items := (items s1)(a := None)\<rparr>"
  have free: "free (Some a) s1 = Inr s'" using it1 by (simp add: free_def s'_def)
  have "remove_from_cart_loop x n s = Some (Inr (Some (count it, s')))"
    using remove_from_cart_loop_hit [OF c(4,3) assms(2,3)] s1(1) free by simp
  with c have "remove_from_cart x s = Some (Inr (count it, s'))"
    by (simp add: remove_from_cart_def)
  moreover have "list_inv s' h (remove1 a as) = list_inv s1 h (remove1 a as)"
    using c(5) by (intro list_inv_frame) (auto simp: s'_def)
  with s1(2,3) c(1) have "cart_inv s' h (remove1 a as)"
    by (simp add: cart_inv_def same_payload_def s'_def)
  moreover have "\<forall>b. b \<noteq> a \<longrightarrow> entry s' b = entry s b"
    using s1(3) by (simp add: same_payload_def s'_def entry_def)
  moreover have "out s' = out s" using s1(3) by (simp add: same_payload_def s'_def)
  ultimately show ?thesis by (auto simp: s'_def)
qed


lemma find_id_ids:
  "(\<And>a. a \<in> set as \<Longrightarrow> map_option fst (entry s' a) = map_option fst (entry s a)) \<Longrightarrow>
   find_id s' x as = find_id s x as"
proof -
  assume ids: "\<And>a. a \<in> set as \<Longrightarrow> map_option fst (entry s' a) = map_option fst (entry s a)"
  show ?thesis unfolding find_id_entry by (rule find_cong [OF refl]) (simp only: ids)
qed

lemma same_payload_trans: "same_payload s s1 \<Longrightarrow> same_payload s1 s2 \<Longrightarrow> same_payload s s2"
  by (simp add: same_payload_def)

lemma cart_inv_empty: "shopping_cart s = Some h \<Longrightarrow> lh_first s h = Some None \<Longrightarrow> cart_inv s h []"
  by (simp add: cart_inv_def list_inv_def load_Lh_first)

lemma add_to_cart_each_found:
  assumes "cart_inv s h as" "find_id s x as = Some a" "entry s a = Some (x, c)"
  shows "\<exists>s'. add_to_cart_each ms x s = Some (Inr s') \<and> cart_inv s' h as \<and>
           entry s' a = Some (x, c + word_of_nat (length ms)) \<and>
           (\<forall>b. b \<noteq> a \<longrightarrow> entry s' b = entry s b)"
  using assms
proof (induction ms arbitrary: s c)
  case Nil
  then show ?case by simp
next
  case (Cons m ms)
  from add_to_cart_found [OF Cons.prems(1,2), of m] obtain s1 where s1:
    "add_to_cart m x s = Some (Inr s1)" "cart_inv s1 h as"
    "entry s1 a = map_option (\<lambda>(i, c). (i, c + 1)) (entry s a)"
    "\<forall>b. b \<noteq> a \<longrightarrow> items s1 b = items s b" by blast
  have e1: "entry s1 a = Some (x, c + 1)" using s1(3) Cons.prems(3) by simp
  have others: "entry s1 b = entry s b" if "b \<noteq> a" for b
    using s1(4) that by (simp add: entry_def)
  have "map_option fst (entry s1 b) = map_option fst (entry s b)" for b
    using e1 Cons.prems(3) others [of b] by (cases "b = a") simp_all
  then have "find_id s1 x as = find_id s x as" by (intro find_id_ids)
  with Cons.prems(2) have f1: "find_id s1 x as = Some a" by simp
  from Cons.IH [OF s1(2) f1 e1] obtain s' where
    "add_to_cart_each ms x s1 = Some (Inr s')" "cart_inv s' h as"
    "entry s' a = Some (x, c + 1 + word_of_nat (length ms))"
    "\<forall>b. b \<noteq> a \<longrightarrow> entry s' b = entry s1 b" by blast
  with s1(1) others show ?case by (auto simp: add.assoc)
qed

lemma find_id_append_new:
  "find_id s x as = None \<Longrightarrow> entry s a = Some (x, c) \<Longrightarrow> find_id s x (as @ [a]) = Some a"
  unfolding find_id_entry by (induction as) (auto split: if_splits)

lemma add_to_cart_each_new:
  assumes "cart_inv s h as" "find_id s x as = None" "items s a = None"
  shows "\<exists>s'. add_to_cart_each (Some (a, g) # ms) x s = Some (Inr s') \<and> cart_inv s' h (as @ [a]) \<and>
           entry s' a = Some (x, word_of_nat (Suc (length ms))) \<and>
           (\<forall>b. b \<noteq> a \<longrightarrow> entry s' b = entry s b)"
proof -
  from add_to_cart_new [OF assms, of g] obtain s1 where s1:
    "add_to_cart (Some (a, g)) x s = Some (Inr s1)" "cart_inv s1 h (as @ [a])"
    "entry s1 a = Some (x, 1)" "\<forall>b. b \<noteq> a \<longrightarrow> entry s1 b = entry s b" by blast
  have a: "a \<notin> set as"
    using list_inv_allocated [of s h as a] assms(1,3) by (auto simp: cart_inv_def)
  have "find_id s1 x as = find_id s x as"
    using s1(4) a by (intro find_id_ids) auto
  with assms(2) have "find_id s1 x as = None" by simp
  then have f1: "find_id s1 x (as @ [a]) = Some a" using s1(3) by (rule find_id_append_new)
  from add_to_cart_each_found [OF s1(2) f1 s1(3), of ms] obtain s' where
    "add_to_cart_each ms x s1 = Some (Inr s')" "cart_inv s' h (as @ [a])"
    "entry s' a = Some (x, 1 + word_of_nat (length ms))"
    "\<forall>b. b \<noteq> a \<longrightarrow> entry s' b = entry s1 b" by blast
  with s1 show ?thesis by auto
qed

lemma insert_tail_each_list_inv:
  assumes "list_inv s h as" "distinct es" "set es \<inter> set as = {}" "set es \<subseteq> dom (items s)"
  shows "\<exists>s'. insert_tail_each h es s = Some (Inr s') \<and> list_inv s' h (as @ es) \<and>
           same_payload s s'"
  using assms
proof (induction es arbitrary: s as)
  case Nil
  then show ?case by (simp add: same_payload_def)
next
  case (Cons e es)
  from Cons.prems obtain g where g: "items s e = Some g" by auto
  from Cons.prems have e: "e \<notin> set as" by auto
  from LIST_INSERT_TAIL_list_inv [OF Cons.prems(1) g e] obtain s1 where s1:
    "LIST_INSERT_TAIL (Some h) (Some e) s = Some (Inr s1)" "list_inv s1 h (as @ [e])"
    "same_payload s s1" by blast
  have "set es \<subseteq> dom (items s1)"
    using Cons.prems(4) same_payload_items [OF s1(3)] by (auto simp: dom_def)
  moreover have "distinct es" "set es \<inter> set (as @ [e]) = {}" using Cons.prems by auto
  ultimately obtain s' where
    "insert_tail_each h es s1 = Some (Inr s')" "list_inv s' h ((as @ [e]) @ es)"
    "same_payload s1 s'" using Cons.IH [OF s1(2)] by blast
  with s1 show ?case by (auto intro: same_payload_trans)
qed


lemma cart_12_inv: "cart_inv cart_12 0 [1, 2]"
  by (simp add: cart_inv_def list_inv_def cart_12_def load_Lh_first load_Le_next)

lemma entry_items_None: "(entry s a = None) = (items s a = None)"
  by (simp add: entry_def)

lemma add_add_remove:
  assumes "shopping_cart s = Some h" "lh_first s h = Some None"
    "items s a1 = None" "items s a2 = None" "a1 \<noteq> a2"
  shows "\<exists>s1 s2 s3. add_to_cart (Some (a1, g1)) 1 s = Some (Inr s1) \<and>
           add_to_cart (Some (a2, g2)) 2 s1 = Some (Inr s2) \<and>
           remove_from_cart 1 s2 = Some (Inr (1, s3)) \<and>
           cart_inv s3 h [a2] \<and> entry s3 a2 = Some (2, 1) \<and> items s3 a1 = None"
proof -
  have c0: "cart_inv s h []" using assms(1,2) by (rule cart_inv_empty)
  have f0: "find_id s 1 [] = None" by (simp add: find_id_def)
  from add_to_cart_new [OF c0 f0 assms(3), of g1] obtain s1 where s1:
    "add_to_cart (Some (a1, g1)) 1 s = Some (Inr s1)" "cart_inv s1 h [a1]"
    "entry s1 a1 = Some (1, 1)" "\<forall>b. b \<noteq> a1 \<longrightarrow> entry s1 b = entry s b" by auto
  have "entry s1 a2 = None" using s1(4) assms(4,5) by (simp add: entry_items_None)
  then have i1: "items s1 a2 = None" by (simp add: entry_items_None)
  have f1: "find_id s1 2 [a1] = None" using s1(3) by (simp add: find_id_entry)
  from add_to_cart_new [OF s1(2) f1 i1, of g2] obtain s2 where s2:
    "add_to_cart (Some (a2, g2)) 2 s1 = Some (Inr s2)" "cart_inv s2 h [a1, a2]"
    "entry s2 a2 = Some (2, 1)" "\<forall>b. b \<noteq> a2 \<longrightarrow> entry s2 b = entry s1 b" by auto
  have e2: "entry s2 a1 = Some (1, 1)" using s2(4) s1(3) assms(5) by simp
  then obtain it where it: "items s2 a1 = Some it" "count it = 1"
    by (auto simp: entry_def)
  have f2: "find_id s2 1 [a1, a2] = Some a1" using e2 by (simp add: find_id_entry)
  from remove_from_cart_found [OF s2(2) f2 it(1)] obtain s3 where s3:
    "remove_from_cart 1 s2 = Some (Inr (count it, s3))" "cart_inv s3 h (remove1 a1 [a1, a2])"
    "items s3 a1 = None" "\<forall>b. b \<noteq> a1 \<longrightarrow> entry s3 b = entry s2 b" by auto
  have "entry s3 a2 = Some (2, 1)" using s3(4) s2(3) assms(5) by simp
  with s1(1) s2(1) s3 it(2) show ?thesis by auto
qed


lemma cart_12_list_inv: "list_inv cart_12 0 [1, 2]"
  using cart_12_inv by (simp add: cart_inv_def)

lemma no_list_in_cart_cycle: "\<not> list_inv cart_cycle 0 as"
proof
  assume "list_inv cart_cycle 0 as"
  then have c: "chain cart_cycle (Lh_first 0) as" by (simp add: list_inv_def)
  then obtain bs where "as = 1 # bs" "chain cart_cycle (Le_next 1) bs"
    by (cases as) (auto simp: cart_cycle_def load_Lh_first)
  then show False
    by (cases bs) (auto simp: cart_cycle_def load_Le_next)
qed

lemma insert_head_again: "LIST_INSERT_HEAD (Some 0) (Some 1) cart_12 = Inr cart_cycle"
  by (simp add: LIST_INSERT_HEAD_def cart_12_def cart_cycle_def addr_le_next_def addr_lh_first_def,
      rule ext, simp)

section \<open>The program as written: the cart pointer is null\<close>

text \<open>
  C10: \<^verbatim>\<open>shopping_cart\<close> is a static pointer that no statement assigns, so it is
  \<^verbatim>\<open>NULL\<close> when the program starts. Reading \<^verbatim>\<open>(head)->lh_first\<close> through it is a
  dereference of a null head pointer, and that read is the first step of
  \<^verbatim>\<open>LIST_FOREACH\<close> (iterating) and of \<^verbatim>\<open>LIST_INSERT_TAIL\<close> (inserting). So for every id,
  and whatever \<^verbatim>\<open>malloc\<close> would answer, the very first call of \<^verbatim>\<open>add_to_cart\<close> or of
  \<^verbatim>\<open>remove_from_cart\<close> faults on the null head pointer, in the header of its loop,
  before it has looked at any item; the same holds in any state in which the pointer is
  null.
\<close>

theorem null_shopping_cart_faults:
  "shopping_cart initial_state = None \<and>
   get_lh_first (shopping_cart initial_state) initial_state = Inl (NullDeref Head) \<and>
   LIST_FOREACH (shopping_cart initial_state) initial_state = Some (Inl (NullDeref Head)) \<and>
   LIST_INSERT_TAIL (shopping_cart initial_state) e initial_state = Some (Inl (NullDeref Head)) \<and>
   add_to_cart m x initial_state = Some (Inl (NullDeref Head)) \<and>
   remove_from_cart x initial_state = Some (Inl (NullDeref Head)) \<and>
   add_to_cart m x (s\<lparr>shopping_cart := None\<rparr>) = Some (Inl (NullDeref Head)) \<and>
   remove_from_cart x (s\<lparr>shopping_cart := None\<rparr>) = Some (Inl (NullDeref Head))"
  by (simp add: initial_state_def add_to_cart_def remove_from_cart_def get_lh_first_def
      LIST_FOREACH_def LIST_INSERT_TAIL_def)

text \<open>
  C2 says that \<^verbatim>\<open>add_to_cart(id)\<close> adds 1 to the count of a matching item or else
  inserts a new item with count 1 at the tail of the list. At the start of the program
  no item exists, so the second case applies; but for every id, and whatever \<^verbatim>\<open>malloc\<close>
  would answer, the call inserts nothing: it faults on the null \<^verbatim>\<open>shopping_cart\<close> in
  the header of \<^verbatim>\<open>LIST_FOREACH\<close>.
\<close>

theorem add_to_cart_at_start_faults:
  "items initial_state = Map.empty \<and>
   add_to_cart m x initial_state = Some (Inl (NullDeref Head))"
  by (simp add: initial_state_def add_to_cart_def get_lh_first_def)

text \<open>
  C4 says that after \<open>n \<ge> 1\<close> calls \<^verbatim>\<open>add_to_cart(id)\<close> with the same id the cart holds
  one item with that id and count \<open>n\<close>. From the start of the program, for every id and
  every \<open>n = Suc (length ms)\<close>, the first of the calls faults on the null
  \<^verbatim>\<open>shopping_cart\<close>, so the sequence ends there with nothing in the cart.
\<close>

theorem add_to_cart_each_at_start_faults:
  "add_to_cart_each (m # ms) x initial_state = Some (Inl (NullDeref Head))"
  by (simp add: initial_state_def add_to_cart_def get_lh_first_def)

text \<open>
  C5 says that after \<^verbatim>\<open>add_to_cart(1)\<close>, \<^verbatim>\<open>add_to_cart(2)\<close> and \<^verbatim>\<open>remove_from_cart(1)\<close>,
  iterating the cart yields exactly the item with id 2. From the start of the program
  the run ends in its first call, which faults on the null \<^verbatim>\<open>shopping_cart\<close> before any
  call has returned, and iterating the cart faults in the same way.
\<close>

theorem add_1_add_2_remove_1_at_start_faults:
  "run [Add_to_cart m1 1, Add_to_cart m2 2, Remove_from_cart 1] initial_state =
     Some ([], Inl (NullDeref Head)) \<and>
   LIST_FOREACH (shopping_cart initial_state) initial_state = Some (Inl (NullDeref Head))"
  by (simp add: initial_state_def add_to_cart_def get_lh_first_def LIST_FOREACH_def)

section \<open>remove_from_cart\<close>

text \<open>
  The first two theorems of this section are about carts in which \<^verbatim>\<open>shopping_cart\<close>
  points to a live list head (\<open>cart_inv\<close>), as their claims are; with the null pointer
  of the previous section \<^verbatim>\<open>remove_from_cart\<close> faults as well, on the head.
\<close>




text \<open>
  C3: for every id \<open>x\<close>, if an item with id \<open>x\<close> is in the cart, \<^verbatim>\<open>remove_from_cart(x)\<close>
  returns the count of that item (the first one with this id); the item is unlinked
  from the list, which keeps its other elements in their order, and freed; the id and
  count of every other item are as before.
\<close>

theorem remove_from_cart_present:
  assumes "cart_inv s h as" "find_id s x as = Some a" "items s a = Some it"
  shows "\<exists>s'. remove_from_cart x s = Some (Inr (count it, s')) \<and>
           cart_inv s' h (remove1 a as) \<and> items s' a = None \<and>
           (\<forall>b. b \<noteq> a \<longrightarrow> entry s' b = entry s b)"
  using remove_from_cart_found [OF assms] by blast

theorem remove_from_cart_present_witness:
  "cart_inv cart_12 0 [1, 2] \<and> find_id cart_12 2 [1, 2] = Some 2 \<and>
   items cart_12 2 = Some \<lparr>item_id = 2, count = 3, le_next = None, le_prev = Some (Le_next 1)\<rparr> \<and>
   (\<exists>s'. remove_from_cart 2 cart_12 = Some (Inr (3, s')) \<and> cart_inv s' 0 [1] \<and> items s' 2 = None)"
proof -
  have f: "find_id cart_12 2 [1, 2] = Some 2" by (simp add: find_id_def cart_12_def)
  have i: "items cart_12 2 = Some \<lparr>item_id = 2, count = 3, le_next = None, le_prev = Some (Le_next 1)\<rparr>"
    by (simp add: cart_12_def)
  from remove_from_cart_present [OF cart_12_inv f i] cart_12_inv f i show ?thesis by auto
qed




section \<open>The list macros\<close>

text \<open>
  C7: for every list \<open>es\<close> of distinct live elements, inserting them one by one with
  \<^verbatim>\<open>LIST_INSERT_TAIL\<close> into an empty list and then iterating with \<^verbatim>\<open>LIST_FOREACH\<close> visits
  exactly \<open>es\<close>, in the order of insertion; the ids and counts of all items are as
  before.
\<close>

theorem insert_tail_each_then_foreach:
  assumes "lh_first s h = Some None" "distinct es" "set es \<subseteq> dom (items s)"
  shows "\<exists>s'. insert_tail_each h es s = Some (Inr s') \<and>
           LIST_FOREACH (Some h) s' = Some (Inr es) \<and> (\<forall>a. entry s' a = entry s a)"
proof -
  have "list_inv s h []" using assms(1) by (simp add: list_inv_def load_Lh_first)
  from insert_tail_each_list_inv [OF this assms(2) _ assms(3)] obtain s' where
    "insert_tail_each h es s = Some (Inr s')" "list_inv s' h ([] @ es)" "same_payload s s'"
    by auto
  then show ?thesis using LIST_FOREACH_list_inv [of s' h es]
    by (auto simp: same_payload_def)
qed

theorem insert_tail_each_then_foreach_witness:
  "lh_first loose_items 0 = Some None \<and> distinct [3, 1, 2 :: addr] \<and>
   set [3, 1, 2] \<subseteq> dom (items loose_items) \<and>
   (\<exists>s'. insert_tail_each 0 [3, 1, 2] loose_items = Some (Inr s') \<and>
         LIST_FOREACH (Some 0) s' = Some (Inr [3, 1, 2]))"
proof -
  have h: "lh_first loose_items 0 = Some None" "distinct [3, 1, 2 :: addr]"
    "set [3, 1, 2] \<subseteq> dom (items loose_items)"
    by (simp_all add: loose_items_def)
  from insert_tail_each_then_foreach [OF h] h show ?thesis by blast
qed

text \<open>
  C8, with the condition the insertions need: the list invariant (the elements are
  reached from the head in order, each once, and the \<^verbatim>\<open>le_prev\<close> of each addresses the
  pointer that points to it) is preserved by \<^verbatim>\<open>LIST_INSERT_HEAD\<close>, by
  \<^verbatim>\<open>LIST_INSERT_AFTER\<close> on a member \<open>l\<close> and by \<^verbatim>\<open>LIST_INSERT_TAIL\<close>, each for a live
  element \<open>e\<close> that is not yet in the list, and by \<^verbatim>\<open>LIST_REMOVE\<close> of a member \<open>l\<close>.
\<close>

theorem list_operations_preserve_invariant:
  assumes "list_inv s h as"
  shows "(items s e \<noteq> None \<and> e \<notin> set as \<longrightarrow>
            (\<exists>s'. LIST_INSERT_HEAD (Some h) (Some e) s = Inr s' \<and> list_inv s' h (e # as))) \<and>
         (items s e \<noteq> None \<and> e \<notin> set as \<and> l \<in> set as \<longrightarrow>
            (\<exists>s'. LIST_INSERT_AFTER (Some l) (Some e) s = Inr s' \<and>
                  list_inv s' h (insert_after_list l e as))) \<and>
         (items s e \<noteq> None \<and> e \<notin> set as \<longrightarrow>
            (\<exists>s'. LIST_INSERT_TAIL (Some h) (Some e) s = Some (Inr s') \<and>
                  list_inv s' h (as @ [e]))) \<and>
         (l \<in> set as \<longrightarrow>
            (\<exists>s'. LIST_REMOVE (Some l) s = Inr s' \<and> list_inv s' h (remove1 l as)))"
proof (intro conjI impI)
  assume "items s e \<noteq> None \<and> e \<notin> set as"
  then obtain g where e: "items s e = Some g" "e \<notin> set as" by auto
  from LIST_INSERT_HEAD_list_inv [OF assms e]
  show "\<exists>s'. LIST_INSERT_HEAD (Some h) (Some e) s = Inr s' \<and> list_inv s' h (e # as)" by blast
  from LIST_INSERT_TAIL_list_inv [OF assms e]
  show "\<exists>s'. LIST_INSERT_TAIL (Some h) (Some e) s = Some (Inr s') \<and> list_inv s' h (as @ [e])"
    by blast
next
  assume "items s e \<noteq> None \<and> e \<notin> set as \<and> l \<in> set as"
  then obtain g where e: "items s e = Some g" "e \<notin> set as" and l: "l \<in> set as" by auto
  from LIST_INSERT_AFTER_list_inv [OF assms l e]
  show "\<exists>s'. LIST_INSERT_AFTER (Some l) (Some e) s = Inr s' \<and>
          list_inv s' h (insert_after_list l e as)" by blast
next
  assume "l \<in> set as"
  from LIST_REMOVE_list_inv [OF assms this]
  show "\<exists>s'. LIST_REMOVE (Some l) s = Inr s' \<and> list_inv s' h (remove1 l as)" by blast
qed

theorem list_operations_preserve_invariant_witness:
  "list_inv cart_12 0 [1, 2] \<and> items cart_12 3 \<noteq> None \<and> 3 \<notin> set [1, 2 :: addr] \<and>
   1 \<in> set [1, 2 :: addr] \<and>
   (\<exists>s'. LIST_INSERT_HEAD (Some 0) (Some 3) cart_12 = Inr s' \<and> list_inv s' 0 [3, 1, 2]) \<and>
   (\<exists>s'. LIST_INSERT_AFTER (Some 1) (Some 3) cart_12 = Inr s' \<and> list_inv s' 0 [1, 3, 2]) \<and>
   (\<exists>s'. LIST_INSERT_TAIL (Some 0) (Some 3) cart_12 = Some (Inr s') \<and> list_inv s' 0 [1, 2, 3]) \<and>
   (\<exists>s'. LIST_REMOVE (Some 1) cart_12 = Inr s' \<and> list_inv s' 0 [2])"
proof -
  have h: "items cart_12 3 \<noteq> None" "3 \<notin> set [1, 2 :: addr]" "1 \<in> set [1, 2 :: addr]"
    by (simp_all add: cart_12_def)
  from list_operations_preserve_invariant [OF cart_12_list_inv, of 3 1] h cart_12_list_inv
  show ?thesis by simp
qed

text \<open>
  Without that condition the claim fails: inserting the first element of \<open>cart_12\<close> at
  the head once more succeeds and makes item 1 its own successor, so that no list of
  elements satisfies the invariant any more.
\<close>

theorem insert_head_member_counterexample:
  "list_inv cart_12 0 [1, 2] \<and> items cart_12 1 \<noteq> None \<and>
   LIST_INSERT_HEAD (Some 0) (Some 1) cart_12 = Inr cart_cycle \<and>
   load (Le_next 1) cart_cycle = Inr (Some 1) \<and>
   (\<forall>as. \<not> list_inv cart_cycle 0 as)"
  using cart_12_list_inv insert_head_again no_list_in_cart_cycle
  by (simp add: cart_12_def cart_cycle_def load_Le_next)

section \<open>The catalogue: get_cost and get_name\<close>

text \<open>
  C9: for every id, \<^verbatim>\<open>get_cost(1) = 10\<close>, \<^verbatim>\<open>get_cost(2) = 12\<close> and \<^verbatim>\<open>get_cost(id) = 0\<close>
  for any other id; \<^verbatim>\<open>get_name(1) = "apple"\<close>, \<^verbatim>\<open>get_name(2) = "banana"\<close> and
  \<^verbatim>\<open>get_name(id) = "bad id"\<close> for any other id. Both are functions of the id alone:
  neither reads nor writes the program state.
\<close>

theorem get_cost_get_name_table:
  "get_cost 1 = 10 \<and> get_cost 2 = 12 \<and> (x \<noteq> 1 \<and> x \<noteq> 2 \<longrightarrow> get_cost x = 0) \<and>
   get_name 1 = ''apple'' \<and> get_name 2 = ''banana'' \<and>
   (x \<noteq> 1 \<and> x \<noteq> 2 \<longrightarrow> get_name x = ''bad id'')"
  by (simp add: get_cost_def get_name_def)

theorem get_cost_get_name_table_witness:
  "(99 :: 64 word) \<noteq> 1 \<and> (99 :: 64 word) \<noteq> 2 \<and> get_cost 99 = 0 \<and> get_name 99 = ''bad id''"
  using get_cost_get_name_table [of 99] by simp

end
